theory Spec2Isabelle
  imports Main "HOL-Library.AList"
begin

section \<open>The lexical scanner (parsers/abstract\_parser.py)\<close>

text \<open>
  Python strings are modelled as \<^typ>\<open>string\<close> (lists of characters), the exceptions the
  code can raise as the values of \<open>error\<close>, and a fallible operation returns
  \<open>error + 'a\<close> with \<open>Inl\<close> for the raised exception. The parser object is a record of
  its two attributes; every method takes the parser and returns the updated one.
  The cursor only ever starts at 0 and is only ever increased, so it is a natural number.
\<close>

datatype error = RuntimeError | IndexError | AttributeError | ValueError | AssertionError

record Parser =
  "text" :: string
  pointer :: nat

definition IDENTIFIER_CHARS :: "char set" where
  "IDENTIFIER_CHARS =
     set ''ABCDEFGHIJKLMNOPQRSTUVWXYZabcdefghijklmnopqrstuvwxyz0123456789/-_$;()[]<>.,''"

definition NUMERIC_CHARS :: "char set" where
  "NUMERIC_CHARS = set ''0123456789''"

text \<open>Python's slice \<open>s[a:b]\<close> for \<open>0 \<le> a \<le> b\<close>; it never raises.\<close>

definition slice :: "string \<Rightarrow> nat \<Rightarrow> nat \<Rightarrow> string" where
  "slice s a b = take (b - a) (drop a s)"

definition Parser_init :: "string \<Rightarrow> Parser" where
  "Parser_init t = \<lparr>text = t, pointer = 0\<rparr>"

definition eof :: "Parser \<Rightarrow> bool" where
  "eof p = (pointer p \<ge> length (text p))"

text \<open>\<open>self.text[self.pointer]\<close> raises IndexError at or beyond the end of the text.\<close>

definition "next" :: "Parser \<Rightarrow> error + char" where
  "next p = (if pointer p < length (text p) then Inr (text p ! pointer p) else Inl IndexError)"

definition try_scan :: "Parser \<Rightarrow> string \<Rightarrow> bool \<times> Parser" where
  "try_scan p expected =
     (let size = length expected in
      if pointer p + size > length (text p) then (False, p)
      else if slice (text p) (pointer p) (pointer p + size) = expected
           then (True, p\<lparr>pointer := pointer p + size\<rparr>)
      else (False, p))"

text \<open>
  \<open>error\<close> prints a diagnostic and raises RuntimeError; its slices and its index into the
  split lines are always in range, so RuntimeError is the only outcome.
\<close>

definition scan :: "Parser \<Rightarrow> string \<Rightarrow> error + Parser" where
  "scan p expected =
     (case try_scan p expected of
        (True, p') \<Rightarrow> Inr p'
      | (False, p') \<Rightarrow> Inl RuntimeError)"

text \<open>
  The loop of \<open>scan_until\<close>, with the local \<open>identifier\<close> as accumulator. In the branch
  that reads \<open>self.next()\<close> the parser is not at the end and \<open>try_scan\<close> has left it
  unchanged, so the read is in range.
\<close>

function scan_until_loop :: "Parser \<Rightarrow> string \<Rightarrow> string \<Rightarrow> string \<times> Parser" where
  "scan_until_loop p end_s identifier =
     (if eof p then (identifier, p)
      else (case try_scan p end_s of
              (True, p') \<Rightarrow> (identifier @ end_s, p')
            | (False, p') \<Rightarrow>
                scan_until_loop (p'\<lparr>pointer := pointer p' + 1\<rparr>) end_s
                  (identifier @ [text p' ! pointer p'])))"
  by pat_completeness auto
termination
  by (relation "measure (\<lambda>(p, e, i). length (text p) - pointer p)")
     (auto simp: eof_def try_scan_def Let_def split: if_splits)

definition scan_until :: "Parser \<Rightarrow> string \<Rightarrow> string \<times> Parser" where
  "scan_until p end_s = scan_until_loop p end_s []"

text \<open>
  The loop of \<open>scan_identifier\<close>. The function returns inside the loop only; when the
  loop ends because the end of the text is reached, control falls off the end of the
  function and Python returns None, modelled as \<open>None\<close>.
\<close>

function scan_identifier_loop :: "Parser \<Rightarrow> char set \<Rightarrow> string \<Rightarrow> string option \<times> Parser" where
  "scan_identifier_loop p chars identifier =
     (if eof p then (None, p)
      else (let c = text p ! pointer p in
            if c \<in> chars
            then scan_identifier_loop (p\<lparr>pointer := pointer p + 1\<rparr>) chars (identifier @ [c])
            else (Some identifier, p)))"
  by pat_completeness auto
termination
  by (relation "measure (\<lambda>(p, cs, i). length (text p) - pointer p)")
     (auto simp: eof_def)

definition scan_identifier :: "Parser \<Rightarrow> char set option \<Rightarrow> string option \<times> Parser" where
  "scan_identifier p chars =
     scan_identifier_loop p (case chars of None \<Rightarrow> IDENTIFIER_CHARS | Some cs \<Rightarrow> cs) []"

section \<open>The type descriptor codec\<close>

text \<open>A dictionary built from a sequence of pairs: later pairs overwrite earlier ones.\<close>

definition dict :: "('k \<times> 'v) list \<Rightarrow> ('k \<times> 'v) list" where
  "dict kvs = fold (\<lambda>(k, v) d. AList.update k v d) kvs []"

definition FIELD_DESCRIPTOR_NAMES :: "(string \<times> string) list" where
  "FIELD_DESCRIPTOR_NAMES =
     [(''byte'', ''B''), (''char'', ''C''), (''double'', ''D''), (''float'', ''F''),
      (''int'', ''I''), (''long'', ''J''), (''short'', ''S''), (''boolean'', ''Z''),
      (''void'', ''V'')]"

definition FIELD_DESCRIPTOR_NAMES_INVERSE :: "(string \<times> string) list" where
  "FIELD_DESCRIPTOR_NAMES_INVERSE = dict (map (\<lambda>(k, v). (v, k)) FIELD_DESCRIPTOR_NAMES)"

definition startswith :: "string \<Rightarrow> string \<Rightarrow> bool" where
  "startswith s pre = (take (length pre) s = pre)"

definition endswith :: "string \<Rightarrow> string \<Rightarrow> bool" where
  "endswith s suf = (length suf \<le> length s \<and> drop (length s - length suf) s = suf)"

text \<open>
  The array-level loop of \<open>convert_type_to_descriptor\<close> on the pair of locals
  \<open>(name, desc)\<close>: \<open>name[-2:]\<close> is the last two characters, \<open>name[:-2]\<close> all but those.
\<close>

function array_levels :: "string \<Rightarrow> string \<Rightarrow> string \<times> string" where
  "array_levels name desc =
     (if length name > 2 \<and> drop (length name - 2) name = ''[]''
      then array_levels (take (length name - 2) name) (desc @ ''['')
      else (name, desc))"
  by pat_completeness auto
termination
  by (relation "measure (\<lambda>(name, desc). length name)") auto

definition convert_type_to_descriptor :: "string \<Rightarrow> (string \<rightharpoonup> string) \<Rightarrow> string" where
  "convert_type_to_descriptor name0 remap =
     (case array_levels name0 [] of (name, desc) \<Rightarrow>
        (case map_of FIELD_DESCRIPTOR_NAMES name of
           Some code \<Rightarrow> desc @ code
         | None \<Rightarrow>
             (let name' = (case remap name of Some n \<Rightarrow> n | None \<Rightarrow> name)
              in desc @ ''L'' @ name' @ '';'')))"

text \<open>The loop \<open>while name.startswith('['): name = name[1:]\<close>.\<close>

function strip_array_prefix :: "string \<Rightarrow> string" where
  "strip_array_prefix name =
     (if startswith name ''['' then strip_array_prefix (drop 1 name) else name)"
  by pat_completeness auto
termination
proof (relation "measure length")
  fix name :: string
  assume "startswith name ''[''"
  then have "name \<noteq> []" by (auto simp: startswith_def)
  then show "(drop 1 name, name) \<in> measure length" by simp
qed simp

definition convert_descriptor_to_type :: "string \<Rightarrow> (string \<rightharpoonup> string) \<Rightarrow> error + string" where
  "convert_descriptor_to_type desc remap =
     (let name = strip_array_prefix desc in
      case map_of FIELD_DESCRIPTOR_NAMES_INVERSE name of
        Some kw \<Rightarrow> Inr kw
      | None \<Rightarrow>
          if startswith name ''L'' \<and> endswith name '';''
          then (let name1 = butlast (drop 1 name)
                in Inr (case remap name1 of Some n \<Rightarrow> n | None \<Rightarrow> name1))
          else Inl ValueError)"

section \<open>How the scanner moves the cursor\<close>

text \<open>
  Facts about the scanner that the termination proofs of the parsing loops rest on: no
  operation changes the text, and none moves the cursor backwards.
\<close>

lemma try_scan_True:
  "try_scan p e = (True, p') \<Longrightarrow>
     p' = p\<lparr>pointer := pointer p + length e\<rparr> \<and> pointer p + length e \<le> length (text p)"
  by (auto simp: try_scan_def Let_def split: if_splits)

lemma try_scan_False: "try_scan p e = (False, p') \<Longrightarrow> p' = p"
  by (auto simp: try_scan_def Let_def split: if_splits)

definition advanced :: "Parser \<Rightarrow> Parser \<Rightarrow> bool" where
  "advanced p p' = (text p' = text p \<and> pointer p \<le> pointer p')"

lemma advanced_refl: "advanced p p"
  by (simp add: advanced_def)

lemma advanced_trans: "advanced p q \<Longrightarrow> advanced q r \<Longrightarrow> advanced p r"
  by (auto simp: advanced_def)

lemma try_scan_advanced: "try_scan p e = (b, p') \<Longrightarrow> advanced p p'"
  by (auto simp: try_scan_def Let_def advanced_def split: if_splits)

lemma scan_Inr:
  "scan p e = Inr p' \<Longrightarrow>
     p' = p\<lparr>pointer := pointer p + length e\<rparr> \<and> pointer p + length e \<le> length (text p)"
  by (auto simp: scan_def split: prod.splits bool.splits dest: try_scan_True)

lemma scan_advanced: "scan p e = Inr p' \<Longrightarrow> advanced p p'"
  by (auto simp: advanced_def dest: scan_Inr)


declare scan_until_loop.simps [simp del]
declare scan_identifier_loop.simps [simp del]
declare array_levels.simps [simp del]
declare strip_array_prefix.simps [simp del]

lemma scan_until_loop_eof: "eof p \<Longrightarrow> scan_until_loop p e acc = (acc, p)"
  by (subst scan_until_loop.simps) simp

lemma scan_until_loop_hit:
  "\<not> eof p \<Longrightarrow> try_scan p e = (True, p') \<Longrightarrow> scan_until_loop p e acc = (acc @ e, p')"
  by (subst scan_until_loop.simps) simp

lemma scan_until_loop_miss:
  "\<not> eof p \<Longrightarrow> try_scan p e = (False, p') \<Longrightarrow>
     scan_until_loop p e acc =
       scan_until_loop (p\<lparr>pointer := pointer p + 1\<rparr>) e (acc @ [text p ! pointer p])"
  by (subst scan_until_loop.simps) (auto dest: try_scan_False)

lemma scan_identifier_loop_eof: "eof p \<Longrightarrow> scan_identifier_loop p cs acc = (None, p)"
  by (subst scan_identifier_loop.simps) simp

lemma scan_identifier_loop_in:
  "\<not> eof p \<Longrightarrow> text p ! pointer p \<in> cs \<Longrightarrow>
     scan_identifier_loop p cs acc =
       scan_identifier_loop (p\<lparr>pointer := pointer p + 1\<rparr>) cs (acc @ [text p ! pointer p])"
  by (subst scan_identifier_loop.simps) simp

lemma scan_identifier_loop_out:
  "\<not> eof p \<Longrightarrow> text p ! pointer p \<notin> cs \<Longrightarrow> scan_identifier_loop p cs acc = (Some acc, p)"
  by (subst scan_identifier_loop.simps) simp

lemma scan_until_loop_advanced: "scan_until_loop p e acc = (r, p') \<Longrightarrow> advanced p p'"
proof (induction p e acc arbitrary: r p' rule: scan_until_loop.induct)
  case (1 p e acc)
  show ?case
  proof (cases "eof p")
    case True
    with "1.prems" show ?thesis by (simp add: scan_until_loop_eof advanced_refl)
  next
    case False
    obtain b q where ts: "try_scan p e = (b, q)" by (cases "try_scan p e")
    show ?thesis
    proof (cases b)
      case True
      with ts False "1.prems" have "p' = q" by (simp add: scan_until_loop_hit)
      with ts show ?thesis by (simp add: try_scan_advanced)
    next
      case bF: False
      with ts have q: "q = p" by (simp add: try_scan_False)
      from bF ts False "1.prems"
      have "scan_until_loop (q\<lparr>pointer := pointer q + 1\<rparr>) e (acc @ [text q ! pointer q]) = (r, p')"
        by (simp add: scan_until_loop_miss q)
      with "1.IH"[OF False ts[symmetric]] bF
      have "advanced (q\<lparr>pointer := pointer q + 1\<rparr>) p'" by simp
      with q show ?thesis by (simp add: advanced_def)
    qed
  qed
qed

lemma scan_until_advanced: "scan_until p e = (r, p') \<Longrightarrow> advanced p p'"
  unfolding scan_until_def by (rule scan_until_loop_advanced)

lemma scan_identifier_loop_advanced:
  "scan_identifier_loop p cs acc = (r, p') \<Longrightarrow> advanced p p'"
proof (induction p cs acc arbitrary: r p' rule: scan_identifier_loop.induct)
  case (1 p cs acc)
  show ?case
  proof (cases "eof p")
    case True
    with "1.prems" show ?thesis by (simp add: scan_identifier_loop_eof advanced_refl)
  next
    case False
    show ?thesis
    proof (cases "text p ! pointer p \<in> cs")
      case True
      with False "1.prems"
      have "scan_identifier_loop (p\<lparr>pointer := pointer p + 1\<rparr>) cs (acc @ [text p ! pointer p]) = (r, p')"
        by (simp add: scan_identifier_loop_in)
      with "1.IH"[OF False refl True] have "advanced (p\<lparr>pointer := pointer p + 1\<rparr>) p'" by simp
      then show ?thesis by (simp add: advanced_def)
    next
      case cF: False
      with False "1.prems" show ?thesis by (simp add: scan_identifier_loop_out advanced_refl)
    qed
  qed
qed

lemma scan_identifier_advanced: "scan_identifier p cs = (r, p') \<Longrightarrow> advanced p p'"
  unfolding scan_identifier_def by (rule scan_identifier_loop_advanced)

section \<open>The mapping parser (mapping/official\_mapping.py)\<close>

text \<open>
  \<open>parse_official\<close> drives a \<open>Parser\<close> imported from \<open>mappificator.util.parser\<close>; the
  scanner operations it calls (\<open>try_scan\<close>, \<open>scan_until\<close>, \<open>eof\<close>, \<open>scan_identifier\<close>,
  \<open>scan\<close>, \<open>next\<close>, \<open>NUMERIC_CHARS\<close>, \<open>convert_type_to_descriptor\<close>) are those of the
  scanner class above.
\<close>

text \<open>
  The string methods the parser uses: \<open>s.replace(old, new)\<close> and \<open>s.split(sep)\<close> for
  one-character arguments. \<open>split\<close> returns one more piece than there are separators.
\<close>

definition replace :: "string \<Rightarrow> char \<Rightarrow> char \<Rightarrow> string" where
  "replace s old new = map (\<lambda>c. if c = old then new else c) s"

fun split :: "string \<Rightarrow> char \<Rightarrow> string list" where
  "split [] sep = [[]]"
| "split (c # cs) sep =
     (if c = sep then [] # split cs sep
      else (case split cs sep of
              [] \<Rightarrow> [[c]]
            | w # ws \<Rightarrow> (c # w) # ws))"

text \<open>
  Modelled from the spec: the class \<open>SourceMap\<close> of \<open>mappificator.util.source_map\<close>, which
  the parser only imports. It holds three mappings from an obfuscated key to a readable
  name: \<open>classes\<close>, \<open>fields\<close> (keyed by class and field) and \<open>methods\<close> (keyed by class,
  method and descriptor). Each Python dict is an association list with distinct keys in
  insertion order, assigned to with \<open>AList.update\<close>. The attribute \<open>fields\<close> is written
  \<open>fields'\<close>.
\<close>

record SourceMap =
  classes :: "(string \<times> string) list"
  fields' :: "((string \<times> string) \<times> string) list"
  methods :: "((string \<times> string \<times> string) \<times> string) list"

definition SourceMap_init :: SourceMap where
  "SourceMap_init = \<lparr>classes = [], fields' = [], methods = []\<rparr>"

type_synonym temp_methods = "((string \<times> string \<times> string \<times> string list) \<times> string) list"

text \<open>
  \<open>parser.scan_identifier().replace('.', '/')\<close>: when \<open>scan_identifier\<close> has returned
  None the method call raises AttributeError.
\<close>

definition scan_name :: "Parser \<Rightarrow> error + (string \<times> Parser)" where
  "scan_name p =
     (case scan_identifier p None of
        (None, p') \<Rightarrow> Inl AttributeError
      | (Some s, p') \<Rightarrow> Inr (replace s (CHR ''.'') (CHR ''/''), p'))"

text \<open>
  The classification of a scanned member line (lines 57 to 72): a readable name ending in
  \<open>)\<close> is a method, staged in \<open>temp_methods\<close> unless its obfuscated name is
  \<open><clinit>\<close>; anything else is a field. Unpacking the split into two names raises
  ValueError unless the name holds exactly one \<open>(\<close>.
\<close>

definition record_member ::
  "string \<Rightarrow> string \<Rightarrow> string \<Rightarrow> string \<Rightarrow> SourceMap \<Rightarrow> temp_methods
     \<Rightarrow> error + (SourceMap \<times> temp_methods)" where
  "record_member notch_class member_type mojmap_member notch_member sources temp =
     (if endswith mojmap_member '')''
      then (case split mojmap_member (CHR ''('') of
              [mojmap_method, params0] \<Rightarrow>
                (let params1 = butlast params0;
                     params2 = split params1 (CHR '','');
                     params = (if params2 = [''''] then [] else params2)
                 in if notch_member \<noteq> ''<clinit>''
                    then Inr (sources,
                           AList.update (notch_class, notch_member, member_type, params)
                             mojmap_method temp)
                    else Inr (sources, temp))
            | _ \<Rightarrow> Inl ValueError)
      else Inr (sources\<lparr>fields' :=
                  AList.update (notch_class, notch_member) mojmap_member (fields' sources)\<rparr>,
                temp))"

text \<open>The optional line-number prefix (lines 45 to 48); \<open>parser.next()\<close> may raise.\<close>

definition skip_line_numbers :: "Parser \<Rightarrow> error + Parser" where
  "skip_line_numbers p =
     (case next p of
        Inl e \<Rightarrow> Inl e
      | Inr c \<Rightarrow>
          if c \<in> NUMERIC_CHARS
          then (case scan_until p '':'' of (_, p1) \<Rightarrow>
                 (case scan_until p1 '':'' of (_, p2) \<Rightarrow> Inr p2))
          else Inr p)"

text \<open>One member line after its indent (lines 45 to 72).\<close>

definition member_line ::
  "string \<Rightarrow> Parser \<Rightarrow> SourceMap \<Rightarrow> temp_methods
     \<Rightarrow> error + (Parser \<times> SourceMap \<times> temp_methods)" where
  "member_line notch_class p sources temp =
     (case skip_line_numbers p of Inl e \<Rightarrow> Inl e | Inr p1 \<Rightarrow>
      case scan_name p1 of Inl e \<Rightarrow> Inl e | Inr (member_type, p2) \<Rightarrow>
      case scan p2 '' '' of Inl e \<Rightarrow> Inl e | Inr p3 \<Rightarrow>
      case scan_name p3 of Inl e \<Rightarrow> Inl e | Inr (mojmap_member, p4) \<Rightarrow>
      case scan p4 '' -> '' of Inl e \<Rightarrow> Inl e | Inr p5 \<Rightarrow>
      case scan_name p5 of Inl e \<Rightarrow> Inl e | Inr (notch_member, p6) \<Rightarrow>
      case scan p6 [CHR 0x0A] of Inl e \<Rightarrow> Inl e | Inr p7 \<Rightarrow>
      case record_member notch_class member_type mojmap_member notch_member sources temp of
        Inl e \<Rightarrow> Inl e
      | Inr (sources', temp') \<Rightarrow> Inr (p7, sources', temp'))"

lemma scan_name_advanced: "scan_name p = Inr (s, p') \<Longrightarrow> advanced p p'"
  by (auto simp: scan_name_def split: prod.splits option.splits dest: scan_identifier_advanced)

lemma skip_line_numbers_advanced: "skip_line_numbers p = Inr p' \<Longrightarrow> advanced p p'"
  by (auto simp: skip_line_numbers_def advanced_refl
           split: sum.splits if_splits prod.splits
           dest!: scan_until_advanced intro: advanced_trans)

lemma member_line_advanced:
  "member_line c p sources temp = Inr (p', sources', temp') \<Longrightarrow> advanced p p'"
  unfolding member_line_def
  by (auto split: sum.splits prod.splits
           dest!: skip_line_numbers_advanced scan_name_advanced scan_advanced
           simp: advanced_def)

text \<open>The loop \<open>while parser.try_scan('    ')\<close> over the members of one class.\<close>

lemma members_loop_measure:
  assumes "try_scan p ''    '' = (True, p1)"
    and "member_line c p1 sources temp = Inr (p2, sources', temp')"
  shows "length (text p2) - pointer p2 < length (text p) - pointer p"
proof -
  from assms(1) have p1: "p1 = p\<lparr>pointer := pointer p + 4\<rparr>"
    and le: "pointer p + 4 \<le> length (text p)"
    using try_scan_True[of p "''    ''" p1] by simp_all
  from assms(2) have "advanced p1 p2" by (rule member_line_advanced)
  with p1 have t: "text p2 = text p" and ge: "pointer p + 4 \<le> pointer p2"
    by (simp_all add: advanced_def)
  from le ge have "length (text p) - pointer p2 < length (text p) - pointer p" by linarith
  with t show ?thesis by simp
qed

function members_loop ::
  "string \<Rightarrow> Parser \<Rightarrow> SourceMap \<Rightarrow> temp_methods
     \<Rightarrow> error + (Parser \<times> SourceMap \<times> temp_methods)" where
  "members_loop notch_class p sources temp =
     (case try_scan p ''    '' of
        (True, p1) \<Rightarrow>
          (case member_line notch_class p1 sources temp of
             Inl e \<Rightarrow> Inl e
           | Inr (p2, sources', temp') \<Rightarrow> members_loop notch_class p2 sources' temp')
      | (False, p1) \<Rightarrow> Inr (p1, sources, temp))"
  by pat_completeness auto
termination
  by (relation "measure (\<lambda>(c, p, s, t). length (text p) - pointer p)")
     (auto dest: members_loop_measure[OF sym])

declare members_loop.simps [simp del]

lemma members_loop_stop:
  "try_scan p ''    '' = (False, p1) \<Longrightarrow> members_loop c p s t = Inr (p1, s, t)"
  by (subst members_loop.simps) simp

lemma members_loop_step:
  "try_scan p ''    '' = (True, p1) \<Longrightarrow>
     members_loop c p s t =
       (case member_line c p1 s t of
          Inl e \<Rightarrow> Inl e
        | Inr (p2, s', t') \<Rightarrow> members_loop c p2 s' t')"
  by (subst members_loop.simps) simp


text \<open>The class declaration line (lines 36 to 39).\<close>

definition class_header :: "Parser \<Rightarrow> error + (string \<times> string \<times> Parser)" where
  "class_header p =
     (case scan_name p of Inl e \<Rightarrow> Inl e | Inr (mojmap_class, p1) \<Rightarrow>
      case scan p1 '' -> '' of Inl e \<Rightarrow> Inl e | Inr p2 \<Rightarrow>
      case scan_name p2 of Inl e \<Rightarrow> Inl e | Inr (notch_class, p3) \<Rightarrow>
      case scan p3 ('':'' @ [CHR 0x0A]) of Inl e \<Rightarrow> Inl e | Inr p4 \<Rightarrow>
      Inr (mojmap_class, notch_class, p4))"

lemma members_loop_advanced:
  "members_loop c p sources temp = Inr (p', sources', temp') \<Longrightarrow> advanced p p'"
proof (induction c p sources temp rule: members_loop.induct)
  case (1 c p sources temp)
  obtain b p1 where ts: "try_scan p ''    '' = (b, p1)" by (cases "try_scan p ''    ''")
  show ?case
  proof (cases b)
    case False
    with ts "1.prems" have "p' = p1" by (simp add: members_loop_stop)
    with ts show ?thesis by (simp add: try_scan_advanced)
  next
    case True
    with ts have "try_scan p ''    '' = (True, p1)" by simp
    from "1.prems"[unfolded members_loop_step[OF this]] obtain p2 s2 t2 where
      ml: "member_line c p1 sources temp = Inr (p2, s2, t2)" and
      rec: "members_loop c p2 s2 t2 = Inr (p', sources', temp')"
      by (auto split: sum.splits)
    from True have bT: "b = True" by simp
    from "1.IH"[OF ts[symmetric] bT ml refl refl rec] have "advanced p2 p'" .
    moreover from ml have "advanced p1 p2" by (rule member_line_advanced)
    moreover from ts have "advanced p p1" by (rule try_scan_advanced)
    ultimately show ?thesis by (blast intro: advanced_trans)
  qed
qed

lemma class_header_measure:
  assumes "\<not> eof p" and "class_header p = Inr (m, n, p4)"
    and "members_loop n p4 sources temp = Inr (p5, sources', temp')"
  shows "length (text p5) - pointer p5 < length (text p) - pointer p"
proof -
  from assms(2) obtain p1 p2 p3 where sn1: "scan_name p = Inr (m, p1)"
    and sc: "scan p1 '' -> '' = Inr p2" and sn2: "scan_name p2 = Inr (n, p3)"
    and sc2: "scan p3 ('':'' @ [CHR 0x0A]) = Inr p4"
    unfolding class_header_def by (auto split: sum.splits prod.splits)
  from sn1 have "advanced p p1" by (rule scan_name_advanced)
  moreover from sc have "text p2 = text p1 \<and> pointer p2 = pointer p1 + 4"
    by (auto dest!: scan_Inr)
  moreover from sn2 have "advanced p2 p3" by (rule scan_name_advanced)
  moreover from sc2 have "advanced p3 p4" by (rule scan_advanced)
  moreover from assms(3) have "advanced p4 p5" by (rule members_loop_advanced)
  ultimately have t: "text p5 = text p" and ge: "pointer p + 4 \<le> pointer p5"
    by (auto simp: advanced_def)
  from assms(1) have "pointer p < length (text p)" by (simp add: eof_def)
  with ge have "length (text p) - pointer p5 < length (text p) - pointer p" by linarith
  with t show ?thesis by simp
qed

text \<open>The loop \<open>while not parser.eof()\<close> over the class blocks.\<close>

function classes_loop ::
  "Parser \<Rightarrow> SourceMap \<Rightarrow> temp_methods \<Rightarrow> error + (SourceMap \<times> temp_methods)" where
  "classes_loop p sources temp =
     (if eof p then Inr (sources, temp)
      else (case class_header p of
              Inl e \<Rightarrow> Inl e
            | Inr (mojmap_class, notch_class, p4) \<Rightarrow>
                (case members_loop notch_class p4
                        (sources\<lparr>classes := AList.update notch_class mojmap_class (classes sources)\<rparr>)
                        temp of
                   Inl e \<Rightarrow> Inl e
                 | Inr (p5, sources', temp') \<Rightarrow> classes_loop p5 sources' temp')))"
  by pat_completeness auto
termination
  by (relation "measure (\<lambda>(p, s, t). length (text p) - pointer p)")
     (auto dest: class_header_measure)

declare classes_loop.simps [simp del]

lemma classes_loop_eof: "eof p \<Longrightarrow> classes_loop p s t = Inr (s, t)"
  by (subst classes_loop.simps) simp

lemma classes_loop_step:
  "\<not> eof p \<Longrightarrow>
     classes_loop p s t =
       (case class_header p of
          Inl e \<Rightarrow> Inl e
        | Inr (mojmap_class, notch_class, p4) \<Rightarrow>
            (case members_loop notch_class p4
                    (s\<lparr>classes := AList.update notch_class mojmap_class (classes s)\<rparr>) t of
               Inl e \<Rightarrow> Inl e
             | Inr (p5, s', t') \<Rightarrow> classes_loop p5 s' t'))"
  by (subst classes_loop.simps) simp

text \<open>The loop over the leading comment lines (lines 31 and 32).\<close>

lemma skip_comments_measure:
  assumes "try_scan p ''#'' = (True, p1)" and "scan_until p1 [CHR 0x0A] = (r, p2)"
  shows "length (text p2) - pointer p2 < length (text p) - pointer p"
proof -
  from assms(1) have p1: "p1 = p\<lparr>pointer := pointer p + 1\<rparr>"
    and le: "pointer p + 1 \<le> length (text p)"
    using try_scan_True[of p "''#''" p1] by simp_all
  from assms(2) have "advanced p1 p2" by (rule scan_until_advanced)
  with p1 have t: "text p2 = text p" and ge: "pointer p + 1 \<le> pointer p2"
    by (simp_all add: advanced_def)
  from le ge have "length (text p) - pointer p2 < length (text p) - pointer p" by linarith
  with t show ?thesis by simp
qed

function skip_comments :: "Parser \<Rightarrow> Parser" where
  "skip_comments p =
     (case try_scan p ''#'' of
        (True, p1) \<Rightarrow> (case scan_until p1 [CHR 0x0A] of (_, p2) \<Rightarrow> skip_comments p2)
      | (False, p1) \<Rightarrow> p1)"
  by pat_completeness auto
termination
  by (relation "measure (\<lambda>p. length (text p) - pointer p)")
     (auto dest: skip_comments_measure[OF sym sym])

declare skip_comments.simps [simp del]

text \<open>
  The resolution pass (lines 74 to 83): the inverse class table is built from the final
  \<open>classes\<close>, and every staged method is entered under its descriptor.
\<close>

definition resolve_method ::
  "(string \<rightharpoonup> string) \<Rightarrow> (string \<times> string \<times> string \<times> string list) \<times> string
     \<Rightarrow> ((string \<times> string \<times> string) \<times> string) list
     \<Rightarrow> ((string \<times> string \<times> string) \<times> string) list" where
  "resolve_method mojmap_to_notch_classes entry ms =
     (case entry of ((notch_class, notch_method, return_type, params), mojmap_method) \<Rightarrow>
        (let return_desc = convert_type_to_descriptor return_type mojmap_to_notch_classes;
             params_desc = map (\<lambda>p. convert_type_to_descriptor p mojmap_to_notch_classes) params;
             method_desc = ''('' @ concat params_desc @ '')'' @ return_desc
         in AList.update (notch_class, notch_method, method_desc) mojmap_method ms))"

definition resolve_methods :: "SourceMap \<Rightarrow> temp_methods \<Rightarrow> SourceMap" where
  "resolve_methods sources temp =
     (let mojmap_to_notch_classes =
            dict (map (\<lambda>(notch, mojmap). (mojmap, notch)) (classes sources))
      in sources\<lparr>methods :=
           fold (resolve_method (map_of mojmap_to_notch_classes)) temp (methods sources)\<rparr>)"

definition parse_official :: "string \<Rightarrow> error + SourceMap" where
  "parse_official t =
     (let parser = skip_comments (Parser_init t) in
      case classes_loop parser SourceMap_init [] of
        Inl e \<Rightarrow> Inl e
      | Inr (sources, temp) \<Rightarrow> Inr (resolve_methods sources temp))"

section \<open>Specification vocabulary\<close>

text \<open>
  The literal \<open>lit\<close> occurs in \<open>t\<close> starting exactly at position \<open>i\<close>: the text splits
  into \<open>i\<close> characters, the literal, and a rest.
\<close>

definition occurs_at :: "string \<Rightarrow> nat \<Rightarrow> string \<Rightarrow> bool" where
  "occurs_at lit i t = (\<exists>pre post. t = pre @ lit @ post \<and> length pre = i)"

text \<open>The nine one-letter descriptor codes of the primitive types and void.\<close>

definition primitive_codes :: "string list" where
  "primitive_codes = [''B'', ''C'', ''D'', ''F'', ''I'', ''J'', ''S'', ''Z'', ''V'']"

text \<open>The key set of a dict.\<close>

definition dict_keys :: "('k \<times> 'v) list \<Rightarrow> 'k set" where
  "dict_keys d = fst ` set d"

text \<open>
  The two invariants of the parsing loops, on the source map and the staged methods:
  every field, staged-method and method key names a class that is a key of \<open>classes\<close>;
  and no staged-method or method key has the obfuscated name \<open><clinit>\<close>.
\<close>

definition class_of_key_ok :: "SourceMap \<Rightarrow> temp_methods \<Rightarrow> bool" where
  "class_of_key_ok s t =
     ((\<forall>k \<in> dict_keys (fields' s). fst k \<in> dict_keys (classes s)) \<and>
      (\<forall>k \<in> dict_keys t. fst k \<in> dict_keys (classes s)) \<and>
      (\<forall>k \<in> dict_keys (methods s). fst k \<in> dict_keys (classes s)))"


section \<open>Cross-document validation\<close>

text \<open>
  \<open>validate_official\<close> calls \<open>SourceMap.keys()\<close> and \<open>compare_to\<close> of
  \<open>mappificator.util.source_map\<close>, which are not part of the sources at hand. A key of
  the combined key set is a key of one of the three dicts, tagged with its category.
\<close>

datatype key = ClassKey string | FieldKey "string \<times> string" | MethodKey "string \<times> string \<times> string"

text \<open>
  Modelled from the spec: the method \<open>SourceMap.keys()\<close>. By section 4.3 of the
  specification the combined key set of a source map is the union of the keys of
  \<open>classes\<close>, \<open>fields\<close> and \<open>methods\<close>, each entry qualified by its own category.
\<close>

definition keys :: "SourceMap \<Rightarrow> key set" where
  "keys sm = ClassKey ` dict_keys (classes sm) \<union> FieldKey ` dict_keys (fields' sm)
               \<union> MethodKey ` dict_keys (methods sm)"

text \<open>
  Modelled from the spec: the comparison \<open>compare_to\<close> of two key sets, of which the code
  reads the component \<open>right_only\<close>. By section 4.3 the validation demands that every key
  of the second set is present in the first, so \<open>right_only\<close> holds the keys of the
  second (right) set that the first (left) set lacks.
\<close>

record comparison =
  right_only :: "key set"

definition compare_to :: "key set \<Rightarrow> key set \<Rightarrow> comparison" where
  "compare_to l r = \<lparr>right_only = r - l\<rparr>"

text \<open>
  \<open>validate_official\<close> (lines 88 to 95): the assertion fails unless \<open>right_only\<close> is
  empty. The result carries both source maps as the call leaves them.
\<close>

definition validate_official :: "SourceMap \<Rightarrow> SourceMap \<Rightarrow> error + (SourceMap \<times> SourceMap)" where
  "validate_official client server =
     (let official_client_v_server = compare_to (keys client) (keys server)
      in if right_only official_client_v_server = {} then Inr (client, server)
         else Inl AssertionError)"

text \<open>Two documents' source maps: the second has one class more than the first.\<close>

definition example_A :: SourceMap where
  "example_A = \<lparr>classes = [(''c'', ''a/B'')], fields' = [], methods = []\<rparr>"

definition example_B :: SourceMap where
  "example_B = \<lparr>classes = [(''c'', ''a/B''), (''d'', ''a/C'')], fields' = [], methods = []\<rparr>"























section \<open>Properties of the scanner\<close>

lemma occurs_at_iff:
  "occurs_at lit i t \<longleftrightarrow> i + length lit \<le> length t \<and> take (length lit) (drop i t) = lit"
proof
  assume "occurs_at lit i t"
  then obtain pre post where "t = pre @ lit @ post" "length pre = i"
    by (auto simp: occurs_at_def)
  then show "i + length lit \<le> length t \<and> take (length lit) (drop i t) = lit" by auto
next
  assume a: "i + length lit \<le> length t \<and> take (length lit) (drop i t) = lit"
  have "t = take i t @ take (length lit) (drop i t) @ drop (length lit) (drop i t)"
    by (metis append_take_drop_id)
  with a have "t = take i t @ lit @ drop (length lit) (drop i t)" by simp
  moreover from a have "length (take i t) = i" by simp
  ultimately show "occurs_at lit i t" unfolding occurs_at_def by blast
qed

text \<open>
  C9. For every text, cursor position and literal: if the literal occurs in the text
  starting exactly at the cursor, \<open>try_scan\<close> returns true and advances the cursor by the
  literal's length (the text is untouched); otherwise it returns false and the parser,
  cursor and text, is left exactly as it was.
\<close>

theorem try_scan_spec:
  "try_scan p lit =
     (if occurs_at lit (pointer p) (text p)
      then (True, p\<lparr>pointer := pointer p + length lit\<rparr>)
      else (False, p))"
  by (simp add: try_scan_def occurs_at_iff slice_def Let_def)

lemma scan_identifier_loop_run:
  "scan_identifier_loop p cs acc =
     (let run = takeWhile (\<lambda>c. c \<in> cs) (drop (pointer p) (text p)) in
      (if pointer p + length run < length (text p) then Some (acc @ run) else None,
       p\<lparr>pointer := pointer p + length run\<rparr>))"
proof (induction p cs acc rule: scan_identifier_loop.induct)
  case (1 p cs acc)
  show ?case
  proof (cases "eof p")
    case True
    then show ?thesis by (simp add: scan_identifier_loop_eof eof_def)
  next
    case False
    then have d: "drop (pointer p) (text p) = text p ! pointer p # drop (Suc (pointer p)) (text p)"
      by (simp add: eof_def Cons_nth_drop_Suc)
    show ?thesis
    proof (cases "text p ! pointer p \<in> cs")
      case True
      from "1.IH"[OF False refl True] False True d show ?thesis
        by (simp add: scan_identifier_loop_in Let_def)
    next
      case cF: False
      with False d show ?thesis by (simp add: scan_identifier_loop_out eof_def)
    qed
  qed
qed

text \<open>
  The loop consumes the maximal run of characters of the set and moves the cursor by its
  length, but it hands the run back only when a character outside the set stops it.
\<close>

lemma scan_identifier_run:
  "scan_identifier p (Some cs) =
     (let run = takeWhile (\<lambda>c. c \<in> cs) (drop (pointer p) (text p)) in
      (if pointer p + length run < length (text p) then Some run else None,
       p\<lparr>pointer := pointer p + length run\<rparr>))"
  by (simp add: scan_identifier_def scan_identifier_loop_run[of p cs "[]"] Let_def)

text \<open>
  C5. \<open>scan_identifier\<close> is to return the maximal run of characters of the set as a
  string, the empty string at the end of the input. On the text \<open>abc\<close> from cursor 0 with
  the default character set the run reaches the end of the input: the cursor is moved
  to 3, but the loop ends without a \<open>return\<close> and the result is None, not \<open>abc\<close>.
\<close>

theorem scan_identifier_end_of_input:
  "scan_identifier \<lparr>text = ''abc'', pointer = 0\<rparr> None = (None, \<lparr>text = ''abc'', pointer = 3\<rparr>)"
  by code_simp

lemma try_scan_occurs:
  "try_scan p d = (occurs_at d (pointer p) (text p),
     if occurs_at d (pointer p) (text p) then p\<lparr>pointer := pointer p + length d\<rparr> else p)"
  by (simp add: try_scan_def occurs_at_iff slice_def Let_def)

lemma slice_step:
  "a < length t \<Longrightarrow> a < b \<Longrightarrow> slice t a b = t ! a # slice t (Suc a) b"
proof -
  assume a: "a < length t" and b: "a < b"
  from b obtain k where k: "b - a = Suc k" and k': "b - Suc a = k"
    by (cases "b - a") auto
  from a have "drop a t = t ! a # drop (Suc a) t" by (simp add: Cons_nth_drop_Suc)
  with k k' show ?thesis by (simp add: slice_def)
qed

lemma scan_until_loop_found:
  assumes "pointer p \<le> i" and "occurs_at d i (text p)"
    and "\<forall>j. pointer p \<le> j \<and> j < i \<longrightarrow> \<not> occurs_at d j (text p)"
  shows "scan_until_loop p d acc =
           (acc @ slice (text p) (pointer p) (i + length d), p\<lparr>pointer := i + length d\<rparr>)"
  using assms
proof (induction "i - pointer p" arbitrary: p acc)
  case 0
  then have i: "i = pointer p" by simp
  from "0.prems"(2) i have le: "pointer p + length d \<le> length (text p)"
    and tk: "take (length d) (drop (pointer p) (text p)) = d"
    by (simp_all add: occurs_at_iff)
  show ?case
  proof (cases "eof p")
    case True
    with le have "length d = 0" unfolding eof_def by linarith
    then have "d = []" by simp
    with True i show ?thesis by (simp add: scan_until_loop_eof slice_def)
  next
    case False
    from "0.prems"(2) i have "try_scan p d = (True, p\<lparr>pointer := pointer p + length d\<rparr>)"
      by (simp add: try_scan_occurs)
    from scan_until_loop_hit[OF False this] tk i show ?thesis by (simp add: slice_def)
  qed
next
  case (Suc n)
  then have lt: "pointer p < i" by simp
  from Suc.prems(2) have "i + length d \<le> length (text p)" by (simp add: occurs_at_iff)
  with lt have inb: "pointer p < length (text p)" by simp
  then have ne: "\<not> eof p" by (simp add: eof_def)
  from Suc.prems(3) lt have "\<not> occurs_at d (pointer p) (text p)" by simp
  then have ts: "try_scan p d = (False, p)" by (simp add: try_scan_occurs)
  let ?q = "p\<lparr>pointer := pointer p + 1\<rparr>"
  have "scan_until_loop ?q d (acc @ [text p ! pointer p]) =
          ((acc @ [text p ! pointer p]) @ slice (text ?q) (pointer ?q) (i + length d),
           ?q\<lparr>pointer := i + length d\<rparr>)"
  proof (rule Suc.hyps(1))
    from Suc.hyps(2) show "n = i - pointer ?q" by simp
    from lt show "pointer ?q \<le> i" by simp
    from Suc.prems(2) show "occurs_at d i (text ?q)" by simp
    from Suc.prems(3) show "\<forall>j. pointer ?q \<le> j \<and> j < i \<longrightarrow> \<not> occurs_at d j (text ?q)" by simp
  qed
  moreover from inb lt have "slice (text p) (pointer p) (i + length d) =
      text p ! pointer p # slice (text p) (Suc (pointer p)) (i + length d)"
    by (intro slice_step) simp_all
  ultimately show ?case
    by (simp add: scan_until_loop_miss[OF ne ts])
qed

lemma scan_until_loop_absent:
  assumes "pointer p \<le> length (text p)"
    and "\<forall>j. pointer p \<le> j \<longrightarrow> \<not> occurs_at d j (text p)"
  shows "scan_until_loop p d acc =
           (acc @ drop (pointer p) (text p), p\<lparr>pointer := length (text p)\<rparr>)"
  using assms
proof (induction "length (text p) - pointer p" arbitrary: p acc)
  case 0
  then have e: "pointer p = length (text p)" by simp
  then have "eof p" by (simp add: eof_def)
  with e show ?case by (simp add: scan_until_loop_eof)
next
  case (Suc n)
  then have inb: "pointer p < length (text p)" by simp
  then have ne: "\<not> eof p" by (simp add: eof_def)
  from Suc.prems(2) have "\<not> occurs_at d (pointer p) (text p)" by simp
  then have ts: "try_scan p d = (False, p)" by (simp add: try_scan_occurs)
  let ?q = "p\<lparr>pointer := pointer p + 1\<rparr>"
  have "scan_until_loop ?q d (acc @ [text p ! pointer p]) =
          ((acc @ [text p ! pointer p]) @ drop (pointer ?q) (text ?q),
           ?q\<lparr>pointer := length (text ?q)\<rparr>)"
  proof (rule Suc.hyps(1))
    from Suc.hyps(2) show "n = length (text ?q) - pointer ?q" by simp
    from inb show "pointer ?q \<le> length (text ?q)" by simp
    from Suc.prems(2) show "\<forall>j. pointer ?q \<le> j \<longrightarrow> \<not> occurs_at d j (text ?q)" by simp
  qed
  moreover from inb have "drop (pointer p) (text p) = text p ! pointer p # drop (Suc (pointer p)) (text p)"
    by (simp add: Cons_nth_drop_Suc)
  ultimately show ?case
    by (simp add: scan_until_loop_miss[OF ne ts])
qed

text \<open>
  C7. \<open>scan_until\<close> is a total function (its loop is accepted with the measure "characters
  left"), so it returns for every parser and delimiter. When \<open>i\<close> is the first position at
  or after the cursor where the delimiter occurs, it returns the text from the cursor up
  to and including that occurrence and leaves the cursor just past it. When the cursor
  lies within the text and the delimiter occurs nowhere at or after it, it returns the
  rest of the text and leaves the cursor at the end of the input.
\<close>

theorem scan_until_spec:
  "(pointer p \<le> i \<and> occurs_at d i (text p) \<and>
      (\<forall>j. pointer p \<le> j \<and> j < i \<longrightarrow> \<not> occurs_at d j (text p))
     \<longrightarrow> scan_until p d =
           (slice (text p) (pointer p) (i + length d), p\<lparr>pointer := i + length d\<rparr>))
   \<and> (pointer p \<le> length (text p) \<and> (\<forall>j. pointer p \<le> j \<longrightarrow> \<not> occurs_at d j (text p))
     \<longrightarrow> scan_until p d = (drop (pointer p) (text p), p\<lparr>pointer := length (text p)\<rparr>))"
  using scan_until_loop_found[of p i d "[]"] scan_until_loop_absent[of p d "[]"]
  by (simp add: scan_until_def)


theorem scan_until_spec_witness:
  "occurs_at '':'' 2 ''ab:cd:'' \<and>
   scan_until \<lparr>text = ''ab:cd:'', pointer = 1\<rparr> '':'' = (''b:'', \<lparr>text = ''ab:cd:'', pointer = 3\<rparr>) \<and>
   scan_until \<lparr>text = ''abc'', pointer = 1\<rparr> '':'' = (''bc'', \<lparr>text = ''abc'', pointer = 3\<rparr>)"
proof -
  let ?p = "\<lparr>text = ''ab:cd:'', pointer = 1\<rparr>" and ?q = "\<lparr>text = ''abc'', pointer = 1\<rparr>"
  have o: "occurs_at '':'' 2 ''ab:cd:''" by (simp add: occurs_at_iff)
  have "\<not> occurs_at '':'' j ''ab:cd:''" if "1 \<le> j \<and> j < 2" for j
  proof -
    from that have "j = 1" by simp
    then show ?thesis by (simp add: occurs_at_iff)
  qed
  with o have h1: "pointer ?p \<le> 2 \<and> occurs_at '':'' 2 (text ?p) \<and>
      (\<forall>j. pointer ?p \<le> j \<and> j < 2 \<longrightarrow> \<not> occurs_at '':'' j (text ?p))" by simp
  have "\<not> occurs_at '':'' j ''abc''" if "1 \<le> j" for j
  proof (cases "j = 1 \<or> j = 2")
    case True
    then show ?thesis by (auto simp: occurs_at_iff)
  next
    case False
    with that have "3 \<le> j" by simp
    then show ?thesis by (simp add: occurs_at_iff)
  qed
  then have h2: "pointer ?q \<le> length (text ?q) \<and>
      (\<forall>j. pointer ?q \<le> j \<longrightarrow> \<not> occurs_at '':'' j (text ?q))" by simp
  from scan_until_spec[of ?p 2 "'':''"] h1
  have r1: "scan_until ?p '':'' = (slice (text ?p) (pointer ?p) (2 + length '':''), ?p\<lparr>pointer := 2 + length '':''\<rparr>)"
    by blast
  from scan_until_spec[of ?q 0 "'':''"] h2
  have r2: "scan_until ?q '':'' = (drop (pointer ?q) (text ?q), ?q\<lparr>pointer := length (text ?q)\<rparr>)"
    by blast
  from o r1 r2 show ?thesis by (simp add: slice_def)
qed

section \<open>Properties of the type descriptor codec\<close>

lemma array_levels_strip:
  "length name > 2 \<Longrightarrow> drop (length name - 2) name = ''[]'' \<Longrightarrow>
     array_levels name desc = array_levels (take (length name - 2) name) (desc @ ''['')"
  by (subst array_levels.simps) simp

lemma array_levels_stop:
  "\<not> (length name > 2 \<and> drop (length name - 2) name = ''[]'') \<Longrightarrow>
     array_levels name desc = (name, desc)"
  by (subst array_levels.simps) (simp only: if_False)

lemma concat_replicate_Suc_right:
  "concat (replicate (Suc k) xs) = concat (replicate k xs) @ xs"
  by (induction k) simp_all

lemma array_levels_shape:
  "\<exists>k base. array_levels name desc = (base, desc @ replicate k (CHR ''[''))
       \<and> name = base @ concat (replicate k ''[]'')
       \<and> \<not> (length base > 2 \<and> drop (length base - 2) base = ''[]'')
       \<and> (base \<noteq> [] \<or> k = 0)"
proof (induction name desc rule: array_levels.induct)
  case (1 name desc)
  show ?case
  proof (cases "length name > 2 \<and> drop (length name - 2) name = ''[]''")
    case False
    then have "array_levels name desc = (name, desc)" by (rule array_levels_stop)
    with False have "array_levels name desc = (name, desc @ replicate 0 (CHR ''[''))
       \<and> name = name @ concat (replicate 0 ''[]'')
       \<and> \<not> (length name > 2 \<and> drop (length name - 2) name = ''[]'')
       \<and> (name \<noteq> [] \<or> (0::nat) = 0)" by simp
    then show ?thesis by blast
  next
    case True
    let ?n = "take (length name - 2) name"
    from True have st: "array_levels name desc = array_levels ?n (desc @ ''['')"
      by (simp add: array_levels_strip)
    from "1.IH"[OF True] obtain k base where
      k: "array_levels ?n (desc @ ''['') = (base, (desc @ ''['') @ replicate k (CHR ''[''))"
      and n: "?n = base @ concat (replicate k ''[]'')"
      and stop: "\<not> (length base > 2 \<and> drop (length base - 2) base = ''[]'')"
      and ne: "base \<noteq> [] \<or> k = 0"
      by blast
    have "name = ?n @ drop (length name - 2) name" by simp
    with True have nm: "name = ?n @ ''[]''" by simp
    from True have "?n \<noteq> []" by auto
    with n ne have ne': "base \<noteq> []" by auto
    have "array_levels name desc = (base, desc @ replicate (Suc k) (CHR ''[''))"
      using k st by simp
    moreover have "name = base @ concat (replicate (Suc k) ''[]'')"
      using nm n by (simp only: concat_replicate_Suc_right) (metis append_assoc)
    ultimately have "array_levels name desc = (base, desc @ replicate (Suc k) (CHR ''[''))
       \<and> name = base @ concat (replicate (Suc k) ''[]'')
       \<and> \<not> (length base > 2 \<and> drop (length base - 2) base = ''[]'')
       \<and> (base \<noteq> [] \<or> Suc k = 0)"
      using stop ne' by blast
    then show ?thesis by blast
  qed
qed

lemma array_levels_suffixes:
  assumes "\<not> endswith base ''[]''" and "base \<noteq> [] \<or> k = 0"
  shows "array_levels (base @ concat (replicate k ''[]'')) desc = (base, desc @ replicate k (CHR ''[''))"
  using assms(2)
proof (induction k arbitrary: desc)
  case 0
  from assms(1) have "\<not> (length base > 2 \<and> drop (length base - 2) base = ''[]'')"
    by (auto simp: endswith_def numeral_2_eq_2)
  then show ?case by (simp add: array_levels_stop)
next
  case (Suc k)
  then have ne: "base \<noteq> []" by simp
  let ?n = "base @ concat (replicate k ''[]'')"
  have r: "concat (replicate (Suc k) ''[]'') = concat (replicate k ''[]'') @ ''[]''"
    by (induction k) simp_all
  have nm: "base @ concat (replicate (Suc k) ''[]'') = ?n @ ''[]''"
    by (simp only: r append_assoc)
  from ne have len: "length (?n @ ''[]'') > 2" by (cases base) simp_all
  have "array_levels (?n @ ''[]'') desc = array_levels ?n (desc @ ''['')"
    using array_levels_strip[OF len] by simp
  also from ne have "\<dots> = (base, (desc @ ''['') @ replicate k (CHR ''[''))"
    by (intro Suc.IH) simp
  finally show ?case by (simp only: nm) (simp add: replicate_append_same)
qed

lemma strip_array_prefix_dropWhile:
  "strip_array_prefix s = dropWhile (\<lambda>c. c = CHR ''['') s"
proof (induction s)
  case Nil
  show ?case by (subst strip_array_prefix.simps) (simp add: startswith_def)
next
  case (Cons c s)
  then show ?case by (subst strip_array_prefix.simps) (simp add: startswith_def)
qed

lemma FIELD_DESCRIPTOR_NAMES_INVERSE_eq:
  "FIELD_DESCRIPTOR_NAMES_INVERSE =
     [(''B'', ''byte''), (''C'', ''char''), (''D'', ''double''), (''F'', ''float''),
      (''I'', ''int''), (''J'', ''long''), (''S'', ''short''), (''Z'', ''boolean''),
      (''V'', ''void'')]"
  by (simp add: FIELD_DESCRIPTOR_NAMES_INVERSE_def FIELD_DESCRIPTOR_NAMES_def dict_def)


lemma inverse_lookup_iff:
  "(\<exists>kw. map_of FIELD_DESCRIPTOR_NAMES_INVERSE s = Some kw) \<longleftrightarrow> s \<in> set primitive_codes"
  by (simp add: FIELD_DESCRIPTOR_NAMES_INVERSE_eq primitive_codes_def)

lemma inverse_lookup_single:
  "map_of FIELD_DESCRIPTOR_NAMES_INVERSE s = Some kw \<Longrightarrow> length s = 1"
  by (auto simp: FIELD_DESCRIPTOR_NAMES_INVERSE_eq split: if_splits)

lemma primitive_roundtrip:
  "map_of FIELD_DESCRIPTOR_NAMES name = Some code \<Longrightarrow>
     map_of FIELD_DESCRIPTOR_NAMES_INVERSE code = Some name \<and>
     dropWhile (\<lambda>c. c = CHR ''['') (replicate k (CHR ''['') @ code) = code"
  by (auto simp: FIELD_DESCRIPTOR_NAMES_INVERSE_eq FIELD_DESCRIPTOR_NAMES_def
        dropWhile_append split: if_splits)


lemma object_wrapper_iff:
  "startswith r ''L'' \<and> endswith r '';'' \<longleftrightarrow> (\<exists>name. r = ''L'' @ name @ '';'')"
proof
  assume a: "startswith r ''L'' \<and> endswith r '';''"
  then obtain t where r: "r = CHR ''L'' # t" by (cases r) (auto simp: startswith_def)
  with a have "t \<noteq> []" by (auto simp: endswith_def)
  moreover from a r have "last r = CHR '';''"
    by (auto simp: endswith_def) (metis last_drop last.simps One_nat_def diff_Suc_1 length_Cons lessI list.size(3) last_ConsL)
  ultimately have "t = butlast t @ '';''" using r by (metis append_butlast_last_id last_ConsR)
  with r have "r = ''L'' @ butlast t @ '';''" by simp
  then show "\<exists>name. r = ''L'' @ name @ '';''" by blast
next
  assume "\<exists>name. r = ''L'' @ name @ '';''"
  then show "startswith r ''L'' \<and> endswith r '';''"
    by (auto simp: startswith_def endswith_def)
qed

lemma convert_descriptor_to_type_object:
  assumes "dropWhile (\<lambda>c. c = CHR ''['') desc = ''L'' @ name @ '';''"
  shows "convert_descriptor_to_type desc remap = Inr (case remap name of Some n \<Rightarrow> n | None \<Rightarrow> name)"
proof -
  let ?r = "''L'' @ name @ '';''"
  have "map_of FIELD_DESCRIPTOR_NAMES_INVERSE ?r = None"
  proof (cases "map_of FIELD_DESCRIPTOR_NAMES_INVERSE ?r")
    case (Some kw)
    then have "length ?r = 1" by (rule inverse_lookup_single)
    then show ?thesis by simp
  qed simp
  moreover have "startswith ?r ''L'' \<and> endswith ?r '';''"
    using object_wrapper_iff by blast
  moreover have "butlast (drop 1 ?r) = name" by (simp add: butlast_append)
  ultimately show ?thesis
    using assms by (simp add: convert_descriptor_to_type_def strip_array_prefix_dropWhile Let_def)
qed

lemma convert_descriptor_to_type_fails_iff:
  "(\<exists>e. convert_descriptor_to_type desc remap = Inl e) \<longleftrightarrow>
     (dropWhile (\<lambda>c. c = CHR ''['') desc \<notin> set primitive_codes
      \<and> \<not> (\<exists>name. dropWhile (\<lambda>c. c = CHR ''['') desc = ''L'' @ name @ '';''))"
proof -
  let ?r = "dropWhile (\<lambda>c. c = CHR ''['') desc"
  show ?thesis
  proof (cases "map_of FIELD_DESCRIPTOR_NAMES_INVERSE ?r")
    case (Some kw)
    then have "?r \<in> set primitive_codes" using inverse_lookup_iff by blast
    with Some show ?thesis
      by (simp add: convert_descriptor_to_type_def strip_array_prefix_dropWhile Let_def)
  next
    case None
    then have "?r \<notin> set primitive_codes" using inverse_lookup_iff[of ?r] by simp
    with None show ?thesis
      using object_wrapper_iff[of ?r]
      by (simp add: convert_descriptor_to_type_def strip_array_prefix_dropWhile Let_def)
  qed
qed

text \<open>
  C8. \<open>convert_descriptor_to_type\<close> raises exactly when the descriptor, with every leading
  \<open>[\<close> removed, is neither one of the nine one-letter codes nor of the form \<open>L<name>;\<close>;
  for a remainder \<open>L<name>;\<close> it returns the name, replaced by its image when the name is
  a key of \<open>remap\<close>.
\<close>

theorem convert_descriptor_to_type_spec:
  "((\<exists>e. convert_descriptor_to_type desc remap = Inl e) \<longleftrightarrow>
      (dropWhile (\<lambda>c. c = CHR ''['') desc \<notin> set primitive_codes
       \<and> \<not> (\<exists>name. dropWhile (\<lambda>c. c = CHR ''['') desc = ''L'' @ name @ '';'')))
   \<and> (\<forall>name. dropWhile (\<lambda>c. c = CHR ''['') desc = ''L'' @ name @ '';'' \<longrightarrow>
         convert_descriptor_to_type desc remap =
           Inr (case remap name of Some n \<Rightarrow> n | None \<Rightarrow> name))"
  using convert_descriptor_to_type_fails_iff[of desc remap]
    convert_descriptor_to_type_object[of desc _ remap]
  by blast

theorem convert_descriptor_to_type_spec_witness:
  "(\<exists>e. convert_descriptor_to_type ''[Q'' Map.empty = Inl e) \<and>
   convert_descriptor_to_type ''[[La/B;'' [''a/B'' \<mapsto> ''x.Y''] = Inr ''x.Y''"
proof -
  have "dropWhile (\<lambda>c. c = CHR ''['') ''[Q'' \<notin> set primitive_codes
       \<and> \<not> (\<exists>name. dropWhile (\<lambda>c. c = CHR ''['') ''[Q'' = ''L'' @ name @ '';'')"
    by (simp add: primitive_codes_def)
  with convert_descriptor_to_type_spec[of "''[Q''" Map.empty]
  have 1: "\<exists>e. convert_descriptor_to_type ''[Q'' Map.empty = Inl e" by blast
  have "dropWhile (\<lambda>c. c = CHR ''['') ''[[La/B;'' = ''L'' @ ''a/B'' @ '';''" by simp
  with convert_descriptor_to_type_spec[of "''[[La/B;''" "[''a/B'' \<mapsto> ''x.Y'']"]
  have "convert_descriptor_to_type ''[[La/B;'' [''a/B'' \<mapsto> ''x.Y''] =
          Inr (case [''a/B'' \<mapsto> ''x.Y''] ''a/B'' of Some n \<Rightarrow> n | None \<Rightarrow> ''a/B'')"
    by blast
  with 1 show ?thesis by simp
qed


lemma convert_type_to_descriptor_shape:
  "\<exists>k base. name = base @ concat (replicate k ''[]'')
     \<and> \<not> (length base > 2 \<and> drop (length base - 2) base = ''[]'')
     \<and> (base \<noteq> [] \<or> k = 0)
     \<and> convert_type_to_descriptor name remap =
         replicate k (CHR ''['') @
           (case map_of FIELD_DESCRIPTOR_NAMES base of
              Some code \<Rightarrow> code
            | None \<Rightarrow> ''L'' @ (case remap base of Some n \<Rightarrow> n | None \<Rightarrow> base) @ '';'')"
proof -
  from array_levels_shape[of name "[]"] obtain k base where
    al: "array_levels name [] = (base, replicate k (CHR ''[''))"
    and rest: "name = base @ concat (replicate k ''[]'')"
      "\<not> (length base > 2 \<and> drop (length base - 2) base = ''[]'')" "base \<noteq> [] \<or> k = 0"
    by auto
  from al have "convert_type_to_descriptor name remap =
         replicate k (CHR ''['') @
           (case map_of FIELD_DESCRIPTOR_NAMES base of
              Some code \<Rightarrow> code
            | None \<Rightarrow> ''L'' @ (case remap base of Some n \<Rightarrow> n | None \<Rightarrow> base) @ '';'')"
    by (simp add: convert_type_to_descriptor_def Let_def split: option.splits)
  with rest show ?thesis by blast
qed

lemma convert_type_to_descriptor_brackets:
  "convert_type_to_descriptor ''[]'' remap =
     ''L'' @ (case remap ''[]'' of Some n \<Rightarrow> n | None \<Rightarrow> ''[]'') @ '';''"
proof -
  have "array_levels ''[]'' [] = (''[]'', [])" by (simp add: array_levels_stop)
  moreover have "map_of FIELD_DESCRIPTOR_NAMES ''[]'' = None"
    by (simp add: FIELD_DESCRIPTOR_NAMES_def)
  ultimately show ?thesis by (simp add: convert_type_to_descriptor_def Let_def)
qed

lemma convert_type_to_descriptor_empty:
  "convert_type_to_descriptor [] remap =
     ''L'' @ (case remap [] of Some n \<Rightarrow> n | None \<Rightarrow> []) @ '';''"
proof -
  have "array_levels [] [] = ([], [])" by (simp add: array_levels_stop)
  moreover have "map_of FIELD_DESCRIPTOR_NAMES [] = None"
    by (simp add: FIELD_DESCRIPTOR_NAMES_def)
  ultimately show ?thesis by (simp add: convert_type_to_descriptor_def Let_def)
qed

text \<open>
  C10. \<open>convert_type_to_descriptor\<close> has no failing branch and its loop terminates, so it
  returns a descriptor for every name and every remap. The name is a base followed by
  \<open>k\<close> pairs \<open>[]\<close>, where stripping stopped at the base (it is at most two characters
  long or does not end in \<open>[]\<close>) and every strip left a non-empty rest; the descriptor
  is \<open>k\<close> characters \<open>[\<close> followed by the code of a primitive base, or by \<open>L<name>;\<close> for
  any other base, \<open>name\<close> being the base after the remap lookup. The name \<open>[]\<close> is
  never stripped: it is encoded as the object \<open>L[];\<close> (\<open>L<remap[name]>;\<close> when a remap has
  it as a key), and the empty name as \<open>L;\<close>.
\<close>

theorem convert_type_to_descriptor_total:
  "(\<exists>k base. name = base @ concat (replicate k ''[]'')
      \<and> \<not> (length base > 2 \<and> drop (length base - 2) base = ''[]'')
      \<and> (base \<noteq> [] \<or> k = 0)
      \<and> convert_type_to_descriptor name remap =
          replicate k (CHR ''['') @
            (case map_of FIELD_DESCRIPTOR_NAMES base of
               Some code \<Rightarrow> code
             | None \<Rightarrow> ''L'' @ (case remap base of Some n \<Rightarrow> n | None \<Rightarrow> base) @ '';''))
   \<and> convert_type_to_descriptor ''[]'' remap =
         ''L'' @ (case remap ''[]'' of Some n \<Rightarrow> n | None \<Rightarrow> ''[]'') @ '';''
   \<and> convert_type_to_descriptor [] remap =
         ''L'' @ (case remap [] of Some n \<Rightarrow> n | None \<Rightarrow> []) @ '';''"
  using convert_type_to_descriptor_shape[of name remap]
    convert_type_to_descriptor_brackets[of remap] convert_type_to_descriptor_empty[of remap]
  by blast

theorem convert_type_to_descriptor_total_witness:
  "convert_type_to_descriptor ''[]'' Map.empty = ''L[];'' \<and>
   convert_type_to_descriptor [] Map.empty = ''L;''"
  using convert_type_to_descriptor_total[of "[]" Map.empty, THEN conjunct2] by simp

lemma convert_type_to_descriptor_suffixes:
  assumes "\<not> endswith base ''[]''" and "base \<noteq> [] \<or> k = 0"
  shows "convert_type_to_descriptor (base @ concat (replicate k ''[]'')) remap =
           replicate k (CHR ''['') @
             (case map_of FIELD_DESCRIPTOR_NAMES base of
                Some code \<Rightarrow> code
              | None \<Rightarrow> ''L'' @ (case remap base of Some n \<Rightarrow> n | None \<Rightarrow> base) @ '';'')"
  using array_levels_suffixes[OF assms, of "[]"]
  by (simp add: convert_type_to_descriptor_def Let_def split: option.splits)

text \<open>
  C1, as the code has it. For a base name that does not end in \<open>[]\<close> (a primitive keyword
  or an object name), followed by any number \<open>k\<close> of \<open>[]\<close> suffixes, encoding and then
  decoding under empty remaps returns the base name: the array suffixes are not
  recovered. With \<open>k = 0\<close> the name is reproduced exactly.
\<close>

theorem descriptor_roundtrip_base:
  assumes "\<not> endswith base ''[]''" and "base \<noteq> [] \<or> k = 0"
  shows "convert_descriptor_to_type
           (convert_type_to_descriptor (base @ concat (replicate k ''[]'')) Map.empty) Map.empty
         = Inr base"
proof (cases "map_of FIELD_DESCRIPTOR_NAMES base")
  case None
  with assms have d: "convert_type_to_descriptor (base @ concat (replicate k ''[]'')) Map.empty =
      replicate k (CHR ''['') @ ''L'' @ base @ '';''"
    by (simp add: convert_type_to_descriptor_suffixes)
  have "dropWhile (\<lambda>c. c = CHR ''['') (replicate k (CHR ''['') @ ''L'' @ base @ '';'') =
      ''L'' @ base @ '';''"
    by (simp add: dropWhile_append)
  from convert_descriptor_to_type_object[OF this, of Map.empty] d show ?thesis by simp
next
  case (Some code)
  with assms have d: "convert_type_to_descriptor (base @ concat (replicate k ''[]'')) Map.empty =
      replicate k (CHR ''['') @ code"
    by (simp add: convert_type_to_descriptor_suffixes)
  from primitive_roundtrip[OF Some, of k] d show ?thesis
    by (simp add: convert_descriptor_to_type_def strip_array_prefix_dropWhile Let_def)
qed

theorem descriptor_roundtrip_base_witness:
  "convert_descriptor_to_type (convert_type_to_descriptor ''a.Foo[][]'' Map.empty) Map.empty
     = Inr ''a.Foo'' \<and>
   convert_descriptor_to_type (convert_type_to_descriptor ''int'' Map.empty) Map.empty
     = Inr ''int''"
proof -
  have e: "\<not> endswith ''a.Foo'' ''[]''" "\<not> endswith ''int'' ''[]''"
    by (simp_all add: endswith_def)
  have "''a.Foo'' @ concat (replicate (Suc (Suc 0)) ''[]'') = ''a.Foo[][]''" by simp
  with descriptor_roundtrip_base[OF e(1), of "Suc (Suc 0)"]
  have 1: "convert_descriptor_to_type (convert_type_to_descriptor ''a.Foo[][]'' Map.empty) Map.empty
     = Inr ''a.Foo''" by simp
  from descriptor_roundtrip_base[OF e(2), of 0]
  have 2: "convert_descriptor_to_type (convert_type_to_descriptor ''int'' Map.empty) Map.empty
     = Inr ''int''" by simp
  from 1 2 show ?thesis by simp
qed

text \<open>
  C1 as stated fails on \<open>int[]\<close>: the round trip yields \<open>int\<close>, which differs from
  \<open>int[]\<close> also after separator normalisation.
\<close>

theorem descriptor_roundtrip_counterexample:
  "convert_descriptor_to_type (convert_type_to_descriptor ''int[]'' Map.empty) Map.empty
     = Inr ''int'' \<and>
   replace ''int'' (CHR ''.'') (CHR ''/'') \<noteq> replace ''int[]'' (CHR ''.'') (CHR ''/'')"
  by code_simp

section \<open>Properties of the mapping parser\<close>

text \<open>
  C2, as the code has it. The example document parses to one class, one field and one
  method; the readable class name is stored with its separators normalised, \<open>a/Foo\<close>.
\<close>

theorem parse_official_example:
  "parse_official ''a.Foo -> c:\<newline>    int field -> f\<newline>    void method() -> m\<newline>'' =
     Inr \<lparr>classes = [(''c'', ''a/Foo'')],
          fields' = [((''c'', ''f''), ''field'')],
          methods = [((''c'', ''m'', ''()V''), ''method'')]\<rparr>"
  by code_simp

text \<open>C2 as stated, with the class stored as \<open>a.Foo\<close>, does not hold.\<close>

theorem parse_official_example_counterexample:
  "parse_official ''a.Foo -> c:\<newline>    int field -> f\<newline>    void method() -> m\<newline>'' \<noteq>
     Inr \<lparr>classes = [(''c'', ''a.Foo'')],
          fields' = [((''c'', ''f''), ''field'')],
          methods = [((''c'', ''m'', ''()V''), ''method'')]\<rparr>"
  by code_simp

text \<open>
  Invariants of the two parsing loops: a property of the source map and the staged
  methods that every member classification preserves holds when the loops end.
\<close>

lemma member_line_record:
  assumes "member_line c p s t = Inr (p', s', t')"
  shows "\<exists>mt mm nm. record_member c mt mm nm s t = Inr (s', t')"
  using assms unfolding member_line_def
  by (auto split: sum.splits prod.splits)

lemma members_loop_invariant:
  "(\<And>mt mm nm s t s' t'.
      I s t \<Longrightarrow> record_member c mt mm nm s t = Inr (s', t') \<Longrightarrow> I s' t') \<Longrightarrow>
   I s t \<Longrightarrow> members_loop c p s t = Inr (p', s', t') \<Longrightarrow> I s' t'"
proof (induction c p s t rule: members_loop.induct)
  case (1 c0 p s t)
  note step0 = "1.prems"(1)
  obtain b p1 where ts: "try_scan p ''    '' = (b, p1)" by (cases "try_scan p ''    ''")
  show ?case
  proof (cases b)
    case False
    with ts "1.prems"(3) have "s' = s \<and> t' = t" by (simp add: members_loop_stop)
    with "1.prems"(2) show ?thesis by simp
  next
    case True
    with ts have "try_scan p ''    '' = (True, p1)" by simp
    from "1.prems"(3)[unfolded members_loop_step[OF this]] obtain p2 s2 t2 where
      ml: "member_line c0 p1 s t = Inr (p2, s2, t2)" and
      rec: "members_loop c0 p2 s2 t2 = Inr (p', s', t')"
      by (auto split: sum.splits)
    from True have bT: "b = True" by simp
    from member_line_record[OF ml] obtain mt mm nm where
      "record_member c0 mt mm nm s t = Inr (s2, t2)" by blast
    with "1.prems"(2) have "I s2 t2" by (rule step0)
    from "1.IH"[OF ts[symmetric] bT ml refl refl step0 this rec] show ?thesis .
  qed
qed


lemma classes_loop_invariant:
  "(\<And>n m s t. I s t \<Longrightarrow> J n (s\<lparr>classes := AList.update n m (classes s)\<rparr>) t) \<Longrightarrow>
   (\<And>c mt mm nm s t s' t'.
      J c s t \<Longrightarrow> record_member c mt mm nm s t = Inr (s', t') \<Longrightarrow> J c s' t') \<Longrightarrow>
   (\<And>c s t. J c s t \<Longrightarrow> I s t) \<Longrightarrow>
   I s t \<Longrightarrow> classes_loop p s t = Inr (s', t') \<Longrightarrow> I s' t'"
proof (induction p s t rule: classes_loop.induct)
  case (1 p s t)
  note hdr = "1.prems"(1) and step = "1.prems"(2) and weaken = "1.prems"(3)
  show ?case
  proof (cases "eof p")
    case True
    with "1.prems"(5) have "s' = s \<and> t' = t" by (simp add: classes_loop_eof)
    with "1.prems"(4) show ?thesis by simp
  next
    case False
    from "1.prems"(5)[unfolded classes_loop_step[OF False]] obtain m n p4 p5 s5 t5 where
      ch: "class_header p = Inr (m, n, p4)" and
      ml: "members_loop n p4 (s\<lparr>classes := AList.update n m (classes s)\<rparr>) t = Inr (p5, s5, t5)" and
      rec: "classes_loop p5 s5 t5 = Inr (s', t')"
      by (auto split: sum.splits)
    from "1.prems"(4) have "J n (s\<lparr>classes := AList.update n m (classes s)\<rparr>) t" by (rule hdr)
    with step have "J n s5 t5" using ml by (rule members_loop_invariant[where I = "J n"])
    then have "I s5 t5" by (rule weaken)
    from "1.IH"[OF False ch refl refl ml refl refl hdr step weaken this rec] show ?thesis .
  qed
qed

lemma dict_keys_Nil: "dict_keys [] = {}"
  by (simp add: dict_keys_def)

lemma dict_keys_update: "dict_keys (AList.update k v d) = insert k (dict_keys d)"
  by (simp add: dict_keys_def dom_update)

lemma dict_keys_entry: "e \<in> set d \<Longrightarrow> fst e \<in> dict_keys d"
  by (simp add: dict_keys_def)

lemma record_member_cases:
  assumes "record_member c mt mm nm s t = Inr (s', t')"
  shows "(s' = s \<and> t' = t)
       \<or> (s' = s \<and> nm \<noteq> ''<clinit>'' \<and> (\<exists>ps name. t' = AList.update (c, nm, mt, ps) name t))
       \<or> (t' = t \<and> s' = s\<lparr>fields' := AList.update (c, nm) mm (fields' s)\<rparr>)"
  using assms unfolding record_member_def
  by (auto simp: Let_def split: if_splits list.splits)

lemma record_member_class_of_key_ok:
  assumes "class_of_key_ok s t \<and> c \<in> dict_keys (classes s)"
    and "record_member c mt mm nm s t = Inr (s', t')"
  shows "class_of_key_ok s' t' \<and> c \<in> dict_keys (classes s')"
proof -
  from record_member_cases[OF assms(2)]
  consider (same) "s' = s \<and> t' = t"
    | (staged) ps name where "s' = s" "t' = AList.update (c, nm, mt, ps) name t"
    | (field) "t' = t" "s' = s\<lparr>fields' := AList.update (c, nm) mm (fields' s)\<rparr>"
    by blast
  then show ?thesis
  proof cases
    case same
    with assms(1) show ?thesis by simp
  next
    case staged
    with assms(1) show ?thesis by (simp add: class_of_key_ok_def dict_keys_update)
  next
    case field
    with assms(1) show ?thesis by (simp add: class_of_key_ok_def dict_keys_update)
  qed
qed


lemma resolve_method_keys:
  "dict_keys (resolve_method r e ms) \<subseteq>
     dict_keys ms \<union> {k. fst k = fst (fst e) \<and> fst (snd k) = fst (snd (fst e))}"
  by (cases e) (auto simp: resolve_method_def Let_def dict_keys_update)

lemma fold_resolve_method_keys:
  "k \<in> dict_keys (fold (resolve_method r) t ms) \<Longrightarrow>
     k \<in> dict_keys ms \<or> (\<exists>j \<in> dict_keys t. fst k = fst j \<and> fst (snd k) = fst (snd j))"
proof (induction t arbitrary: ms)
  case Nil
  then show ?case by (simp add: dict_keys_Nil)
next
  case (Cons e t)
  have ks: "dict_keys (e # t) = insert (fst e) (dict_keys t)" by (simp add: dict_keys_def)
  from Cons.prems have "k \<in> dict_keys (fold (resolve_method r) t (resolve_method r e ms))"
    by simp
  from Cons.IH[OF this] show ?case
  proof
    assume "k \<in> dict_keys (resolve_method r e ms)"
    with resolve_method_keys[of r e ms] ks show ?thesis by auto
  next
    assume "\<exists>j \<in> dict_keys t. fst k = fst j \<and> fst (snd k) = fst (snd j)"
    with ks show ?thesis by auto
  qed
qed

lemma resolve_methods_class_of_key_ok:
  assumes "class_of_key_ok s t"
  shows "class_of_key_ok (resolve_methods s t) []"
proof -
  have "fst k \<in> dict_keys (classes s)"
    if "k \<in> dict_keys (fold (resolve_method r) t (methods s))" for k r
    using fold_resolve_method_keys[OF that] assms
    by (auto simp: class_of_key_ok_def)
  with assms show ?thesis
    by (simp add: class_of_key_ok_def resolve_methods_def Let_def dict_keys_Nil)
qed


lemma parse_official_class_of_key_ok:
  assumes "parse_official t = Inr sm"
  shows "class_of_key_ok sm []"
proof -
  from assms obtain s tm where
    cl: "classes_loop (skip_comments (Parser_init t)) SourceMap_init [] = Inr (s, tm)"
    and sm: "sm = resolve_methods s tm"
    by (auto simp: parse_official_def Let_def split: sum.splits)
  have init: "class_of_key_ok SourceMap_init []"
    by (simp add: class_of_key_ok_def SourceMap_init_def dict_keys_Nil)
  have "class_of_key_ok s tm"
  proof (rule classes_loop_invariant[where I = class_of_key_ok
        and J = "\<lambda>c s t. class_of_key_ok s t \<and> c \<in> dict_keys (classes s)", OF _ _ _ init cl])
    fix n m s t
    assume "class_of_key_ok s t"
    then show "class_of_key_ok (s\<lparr>classes := AList.update n m (classes s)\<rparr>) t \<and>
        n \<in> dict_keys (classes (s\<lparr>classes := AList.update n m (classes s)\<rparr>))"
      by (auto simp: class_of_key_ok_def dict_keys_update)
  next
    fix c mt mm nm s t s' t'
    assume "class_of_key_ok s t \<and> c \<in> dict_keys (classes s)"
      and "record_member c mt mm nm s t = Inr (s', t')"
    then show "class_of_key_ok s' t' \<and> c \<in> dict_keys (classes s')"
      by (rule record_member_class_of_key_ok)
  next
    fix c :: string and s t
    assume "class_of_key_ok s t \<and> c \<in> dict_keys (classes s)"
    then show "class_of_key_ok s t" by simp
  qed
  with sm show ?thesis by (simp add: resolve_methods_class_of_key_ok)
qed


text \<open>
  C3. Referential completeness: whenever \<open>parse_official\<close> returns a source map, the class
  component of every key of its \<open>fields\<close> and of every key of its \<open>methods\<close> is a key of
  its \<open>classes\<close>.
\<close>

theorem parse_official_referential:
  "parse_official t = Inr sm \<Longrightarrow>
     (\<forall>k \<in> dict_keys (fields' sm). fst k \<in> dict_keys (classes sm)) \<and>
     (\<forall>k \<in> dict_keys (methods sm). fst k \<in> dict_keys (classes sm))"
  using parse_official_class_of_key_ok[of t sm] by (simp add: class_of_key_ok_def)

theorem parse_official_referential_witness:
  "parse_official ''a.Foo -> c:\<newline>    int field -> f\<newline>    void method() -> m\<newline>'' =
     Inr \<lparr>classes = [(''c'', ''a/Foo'')],
          fields' = [((''c'', ''f''), ''field'')],
          methods = [((''c'', ''m'', ''()V''), ''method'')]\<rparr> \<and>
   fst ` dict_keys [((''c'', ''f''), ''field'')] \<subseteq> dict_keys [(''c'', ''a/Foo'')] \<and>
   fst ` dict_keys [((''c'', ''m'', ''()V''), ''method'')] \<subseteq> dict_keys [(''c'', ''a/Foo'')]"
proof -
  have p: "parse_official ''a.Foo -> c:\<newline>    int field -> f\<newline>    void method() -> m\<newline>'' =
     Inr \<lparr>classes = [(''c'', ''a/Foo'')],
          fields' = [((''c'', ''f''), ''field'')],
          methods = [((''c'', ''m'', ''()V''), ''method'')]\<rparr>"
    by code_simp
  from parse_official_referential[OF p] have
    "(\<forall>k \<in> dict_keys [((''c'', ''f''), ''field'')]. fst k \<in> dict_keys [(''c'', ''a/Foo'')]) \<and>
     (\<forall>k \<in> dict_keys [((''c'', ''m'', ''()V''), ''method'')]. fst k \<in> dict_keys [(''c'', ''a/Foo'')])"
    by simp
  then have "fst ` dict_keys [((''c'', ''f''), ''field'')] \<subseteq> dict_keys [(''c'', ''a/Foo'')] \<and>
     fst ` dict_keys [((''c'', ''m'', ''()V''), ''method'')] \<subseteq> dict_keys [(''c'', ''a/Foo'')]"
    by blast
  with p show ?thesis by blast
qed






















































section \<open>Properties of the validation\<close>

lemma keys_subset_iff:
  "keys server \<subseteq> keys client \<longleftrightarrow>
     dict_keys (classes server) \<subseteq> dict_keys (classes client) \<and>
     dict_keys (fields' server) \<subseteq> dict_keys (fields' client) \<and>
     dict_keys (methods server) \<subseteq> dict_keys (methods client)"
  unfolding keys_def by auto

text \<open>
  C4. \<open>validate_official client server\<close> fails, with the AssertionError of its
  \<open>assert\<close>, exactly when the combined key set of the server holds a key that the
  client's lacks; when the server's key set is a subset of
  the client's it succeeds and leaves both source maps as they were. Keys are compared
  within their own category: the subset condition is the three subset conditions on the
  class, field and method keys.
\<close>

theorem validate_official_spec:
  "(validate_official client server = Inl AssertionError \<longleftrightarrow>
      (\<exists>k. k \<in> keys server \<and> k \<notin> keys client))
   \<and> (keys server \<subseteq> keys client \<longrightarrow> validate_official client server = Inr (client, server))
   \<and> (keys server \<subseteq> keys client \<longleftrightarrow>
        dict_keys (classes server) \<subseteq> dict_keys (classes client) \<and>
        dict_keys (fields' server) \<subseteq> dict_keys (fields' client) \<and>
        dict_keys (methods server) \<subseteq> dict_keys (methods client))"
proof -
  have "right_only (compare_to (keys client) (keys server)) = {} \<longleftrightarrow> keys server \<subseteq> keys client"
    by (simp add: compare_to_def)
  then have 1: "validate_official client server = Inl AssertionError \<longleftrightarrow> \<not> keys server \<subseteq> keys client"
    and 2: "keys server \<subseteq> keys client \<longrightarrow> validate_official client server = Inr (client, server)"
    by (simp_all add: validate_official_def Let_def)
  from 1 have "validate_official client server = Inl AssertionError \<longleftrightarrow>
      (\<exists>k. k \<in> keys server \<and> k \<notin> keys client)"
    by blast
  with 2 keys_subset_iff[of server client] show ?thesis by blast
qed

theorem validate_official_spec_witness:
  "validate_official example_A example_B = Inl AssertionError \<and>
   validate_official example_B example_A = Inr (example_B, example_A)"
proof -
  have k: "ClassKey ''d'' \<in> keys example_B \<and> ClassKey ''d'' \<notin> keys example_A"
    by (simp add: keys_def dict_keys_def example_A_def example_B_def)
  then have ex: "\<exists>k. k \<in> keys example_B \<and> k \<notin> keys example_A" by (rule exI)
  have 1: "validate_official example_A example_B = Inl AssertionError"
    by (rule validate_official_spec[of example_A example_B, THEN conjunct1, THEN iffD2, OF ex])
  have sub: "keys example_A \<subseteq> keys example_B"
    by (simp add: keys_def dict_keys_def example_A_def example_B_def)
  have 2: "validate_official example_B example_A = Inr (example_B, example_A)"
    by (rule validate_official_spec[of example_B example_A, THEN conjunct2, THEN conjunct1,
          rule_format, OF sub])
  from 1 2 show ?thesis by (rule conjI)
qed

end
